theory Spec2Isabelle
  imports Main
begin

section \<open>Data model (types.ts)\<close>

text \<open>
  The enums of \<^verbatim>\<open>types.ts\<close> are string enums; \<open>kind_text\<close> gives the string a
  template literal interpolates for a \<open>TransactionKind\<close>.
\<close>

datatype UvmComponentType =
  TOP | TEST | ENV | AGENT | SEQUENCER | DRIVER | MONITOR | SCOREBOARD | DUT
  | INTERFACE | SEQUENCE | CONFIG_DB

datatype TransactionKind = READ | WRITE | IDLE

fun kind_text :: "TransactionKind \<Rightarrow> string" where
  "kind_text READ = ''READ''"
| "kind_text WRITE = ''WRITE''"
| "kind_text IDLE = ''IDLE''"

text \<open>
  A JavaScript \<open>number\<close> as far as this program produces one: the delay is only ever
  written by \<^verbatim>\<open>parseInt(..) || 0\<close> and \<^verbatim>\<open>currentStep.delay || 0\<close>, so it is NaN,
  a double with an integer value, or one of the two infinities (\<open>parseInt\<close> of a digit
  string beyond the range of a double). \<open>Num i\<close> is the double of value \<open>i\<close>;
  \<open>parseInt\<close> rounds to such a value.
\<close>

datatype number = NaN | Num int | Infinity | NegInfinity

text \<open>Truthiness of a number (\<open>0\<close> and NaN are falsy), \<open>a || b\<close> and \<open>a > 0\<close>.\<close>

fun truthy :: "number \<Rightarrow> bool" where
  "truthy NaN = False"
| "truthy (Num n) = (n \<noteq> 0)"
| "truthy Infinity = True"
| "truthy NegInfinity = True"

definition or_number :: "number \<Rightarrow> number \<Rightarrow> number" where
  "or_number a b = (if truthy a then a else b)"

fun gt_zero :: "number \<Rightarrow> bool" where
  "gt_zero NaN = False"
| "gt_zero (Num n) = (n > 0)"
| "gt_zero Infinity = True"
| "gt_zero NegInfinity = False"

record SequenceStep =
  id' :: string
  kind :: TransactionKind
  addr :: string
  data :: string
  delay :: number

text \<open>\<open>Partial<SequenceStep>\<close>: every field may be absent (\<open>undefined\<close>).\<close>

record PartialStep =
  p_id :: "string option"
  p_kind :: "TransactionKind option"
  p_addr :: "string option"
  p_data :: "string option"
  p_delay :: "number option"

text \<open>
  \<open>SimulationStep\<close>: the display-only texts \<open>description\<close> and \<open>codeSnippet\<close> are
  not part of the model.
\<close>

record SimulationStep =
  sim_id :: nat
  label :: string
  component :: UvmComponentType

section \<open>Numbers as text\<close>

text \<open>
  \<open>Number::toString\<close>. For an integer of magnitude below \<open>2^53\<close> the text is its
  decimal numeral, and the theorems that spell out digits are stated for these. For a
  double beyond that JavaScript prints the shortest decimal that reads back as the same
  double (rounded digits, exponent notation from \<open>10^21\<close> on); \<open>number_text\<close> does
  not follow that and keeps the digits of the integer.
\<close>

definition digit_char :: "nat \<Rightarrow> char" where
  "digit_char d = ''0123456789'' ! d"

fun show_nat :: "nat \<Rightarrow> string" where
  "show_nat n =
     (if n < 10 then [digit_char n] else show_nat (n div 10) @ [digit_char (n mod 10)])"

declare show_nat.simps [simp del]

definition show_int :: "int \<Rightarrow> string" where
  "show_int i = (if i < 0 then ''-'' @ show_nat (nat (- i)) else show_nat (nat i))"

fun number_text :: "number \<Rightarrow> string" where
  "number_text NaN = ''NaN''"
| "number_text (Num i) = show_int i"
| "number_text Infinity = ''Infinity''"
| "number_text NegInfinity = ''-Infinity''"

section \<open>The built-in parseInt (ECMAScript, radix absent)\<close>

text \<open>
  The text that \<open>parseInt\<close> reads is a list of UTF-16 code units, since the white
  space it skips lies partly outside Latin-1; \<open>utf16\<close> gives the code units of a text
  of Latin-1 characters.
\<close>

type_synonym code_unit = nat

definition utf16 :: "string \<Rightarrow> code_unit list" where
  "utf16 s = map of_char s"

text \<open>
  \<open>StrWhiteSpaceChar\<close>: the white space and line terminators of ECMAScript (TAB, LF,
  VT, FF, CR, SP, NBSP, the space separators of Unicode, LS, PS and ZWNBSP).
\<close>

definition isWhiteSpace :: "code_unit \<Rightarrow> bool" where
  "isWhiteSpace u =
     (u \<in> set [0x09, 0x0A, 0x0B, 0x0C, 0x0D, 0x20, 0xA0, 0x1680, 0x2028, 0x2029, 0x202F,
               0x205F, 0x3000, 0xFEFF]
      \<or> (0x2000 \<le> u \<and> u \<le> 0x200A))"

definition digitVal :: "code_unit \<Rightarrow> nat option" where
  "digitVal n =
     (if 48 \<le> n \<and> n \<le> 57 then Some (n - 48)
      else if 97 \<le> n \<and> n \<le> 122 then Some (n - 87)
      else if 65 \<le> n \<and> n \<le> 90 then Some (n - 55)
      else None)"

definition isRadixDigit :: "nat \<Rightarrow> code_unit \<Rightarrow> bool" where
  "isRadixDigit R c = (case digitVal c of None \<Rightarrow> False | Some v \<Rightarrow> v < R)"

definition mathInt :: "nat \<Rightarrow> code_unit list \<Rightarrow> nat" where
  "mathInt R Z =
     foldl (\<lambda>acc c. acc * R + (case digitVal c of None \<Rightarrow> 0 | Some v \<Rightarrow> v)) 0 Z"

text \<open>
  The number value of a mathematical integer: the nearest double, a tie going to the
  even mantissa, and infinity (\<open>None\<close>) from \<open>2^1024\<close> on. \<open>bitlen n\<close> is the
  number of binary digits of \<open>n\<close>; a double keeps the leading 53 of them.
\<close>

fun bitlen :: "nat \<Rightarrow> nat" where
  "bitlen n = (if n = 0 then 0 else Suc (bitlen (n div 2)))"

declare bitlen.simps [simp del]

definition roundToDouble :: "nat \<Rightarrow> nat option" where
  "roundToDouble n =
     (if n < 2 ^ 53 then Some n
      else
        let e = bitlen n - 53;
            q = n div 2 ^ e;
            r = n mod 2 ^ e;
            half = 2 ^ (e - 1);
            q' = (if r > half \<or> (r = half \<and> odd q) then q + 1 else q);
            x = q' * 2 ^ e
        in if x < 2 ^ 1024 then Some x else None)"

text \<open>
  Leading white space is dropped, one sign is read, a \<open>0x\<close>/\<open>0X\<close> prefix selects
  radix 16, and the longest prefix of digits is the value; no digit gives NaN.
\<close>

definition parseInt :: "code_unit list \<Rightarrow> number" where
  "parseInt inputString =
     (let S = dropWhile isWhiteSpace inputString;
          sign = (if S \<noteq> [] \<and> hd S = of_char CHR ''-'' then - 1 else (1::int));
          S = (if S \<noteq> [] \<and> (hd S = of_char CHR ''+'' \<or> hd S = of_char CHR ''-'')
               then tl S else S);
          hex = (2 \<le> length S \<and> (take 2 S = utf16 ''0x'' \<or> take 2 S = utf16 ''0X''));
          R = (if hex then 16 else 10);
          S = (if hex then drop 2 S else S);
          Z = takeWhile (isRadixDigit R) S
      in if Z = [] then NaN
         else case roundToDouble (mathInt R Z) of
                None \<Rightarrow> (if sign = - 1 then NegInfinity else Infinity)
              | Some x \<Rightarrow> Num (sign * int x))"

section \<open>SequenceBuilder.tsx\<close>

record Builder =
  steps :: "SequenceStep list"
  currentStep :: PartialStep
  generatedCode :: string

subsection \<open>generateCode\<close>

text \<open>The callback of \<open>steps.forEach\<close>: the text so far, the index and the step.\<close>

definition forEach_callback :: "string \<Rightarrow> nat \<Rightarrow> SequenceStep \<Rightarrow> string" where
  "forEach_callback code0 index step =
     (let code = code0 @ ''    // Step '' @ show_nat (index + 1) @ '': '' @ kind_text (kind step)
                   @ ''\<newline>''
      in if kind step = IDLE then
           code @ ''    #'' @ number_text (or_number (delay step) (Num 10)) @ '';\<newline>\<newline>''
         else
           let code = code @ ''    req = my_transaction::type_id::create(\"req\");\<newline>'';
               code = code @ ''    start_item(req);\<newline>'';
               code = code @ ''    if (!req.randomize() with {\<newline>'';
               code = code @ ''      addr == '' @ addr step @ '';\<newline>'';
               code = code @ ''      kind == '' @ kind_text (kind step) @ '';\<newline>'';
               code = (if kind step = WRITE
                       then code @ ''      data == '' @ data step @ '';\<newline>''
                       else code);
               code = code @ ''    }) `uvm_error(\"SEQ\", \"Randomization failed\")\<newline>'';
               code = code @ ''    finish_item(req);\<newline>'';
               code = (if gt_zero (delay step)
                       then code @ ''    #'' @ number_text (delay step) @ '';\<newline>''
                       else code)
           in code @ ''\<newline>'')"

fun forEach :: "string \<Rightarrow> nat \<Rightarrow> SequenceStep list \<Rightarrow> string" where
  "forEach code index [] = code"
| "forEach code index (step # rest) = forEach (forEach_callback code index step) (Suc index) rest"

text \<open>
  \<open>generateCode\<close> in two parts: the text it has built when \<open>forEach\<close> starts
  (the class preamble, and the placeholder comment of an empty list), and the rest.
\<close>

definition generateCode_head :: "SequenceStep list \<Rightarrow> string" where
  "generateCode_head ss =
     (let code = ''class my_custom_seq extends uvm_sequence #(my_transaction);\<newline>'';
          code = code @ ''  `uvm_object_utils(my_custom_seq)\<newline>\<newline>'';
          code = code @ ''  function new(string name = \"my_custom_seq\");\<newline>    super.new(name);\<newline>  endfunction\<newline>\<newline>'';
          code = code @ ''  virtual task body();\<newline>    my_transaction req;\<newline>\<newline>''
      in if length ss = 0
         then code @ ''    // Add transactions to see code here\<newline>''
         else code)"

definition generateCode :: "SequenceStep list \<Rightarrow> string" where
  "generateCode ss =
     (let code = generateCode_head ss;
          code = forEach code 0 ss
      in code @ ''  endtask\<newline>endclass'')"

subsection \<open>State changes\<close>

text \<open>
  \<open>setSteps\<close> together with the effect that depends on \<open>[steps]\<close>: after the
  render the preview holds the text of the new list.
\<close>

definition setSteps :: "SequenceStep list \<Rightarrow> Builder \<Rightarrow> Builder" where
  "setSteps ss b = b\<lparr>steps := ss, generatedCode := generateCode ss\<rparr>"

text \<open>
  \<open>a || b\<close> on an optional string (absent and empty are falsy) and on an optional
  kind (the enum's strings are all non-empty, so only absent is falsy).
\<close>

fun or_string :: "string option \<Rightarrow> string \<Rightarrow> string" where
  "or_string None d = d"
| "or_string (Some s) d = (if s = [] then d else s)"

fun or_kind :: "TransactionKind option \<Rightarrow> TransactionKind \<Rightarrow> TransactionKind" where
  "or_kind None d = d"
| "or_kind (Some k) d = k"

fun or_delay :: "number option \<Rightarrow> number \<Rightarrow> number" where
  "or_delay None d = d"
| "or_delay (Some n) d = or_number n d"

text \<open>\<open>addStep\<close>; \<open>now\<close> is the value of \<open>Date.now()\<close>, in milliseconds.\<close>

definition addStep :: "nat \<Rightarrow> Builder \<Rightarrow> Builder" where
  "addStep now b =
     (let newStep = \<lparr> id' = show_nat now,
                       kind = or_kind (p_kind (currentStep b)) WRITE,
                       addr = or_string (p_addr (currentStep b)) ''0'',
                       data = or_string (p_data (currentStep b)) ''0'',
                       delay = or_delay (p_delay (currentStep b)) (Num 0) \<rparr>
      in setSteps (steps b @ [newStep]) b)"

definition removeStep :: "string \<Rightarrow> Builder \<Rightarrow> Builder" where
  "removeStep i b = setSteps (filter (\<lambda>s. id' s \<noteq> i) (steps b)) b"

definition clearAll :: "Builder \<Rightarrow> Builder" where
  "clearAll b = setSteps [] b"

text \<open>The \<open>onClick\<close> and \<open>onChange\<close> handlers of the form.\<close>

definition onKindClick :: "TransactionKind \<Rightarrow> Builder \<Rightarrow> Builder" where
  "onKindClick k b = b\<lparr>currentStep := (currentStep b)\<lparr>p_kind := Some k\<rparr>\<rparr>"

definition onAddrChange :: "string \<Rightarrow> Builder \<Rightarrow> Builder" where
  "onAddrChange v b = b\<lparr>currentStep := (currentStep b)\<lparr>p_addr := Some v\<rparr>\<rparr>"

definition onDataChange :: "string \<Rightarrow> Builder \<Rightarrow> Builder" where
  "onDataChange v b = b\<lparr>currentStep := (currentStep b)\<lparr>p_data := Some v\<rparr>\<rparr>"

definition onDelayChange :: "code_unit list \<Rightarrow> Builder \<Rightarrow> Builder" where
  "onDelayChange v b =
     b\<lparr>currentStep := (currentStep b)\<lparr>p_delay := Some (or_number (parseInt v) (Num 0))\<rparr>\<rparr>"

text \<open>The component after its first render and effect.\<close>

definition initialBuilder :: Builder where
  "initialBuilder =
     \<lparr> steps = [],
       currentStep = \<lparr> p_id = None, p_kind = Some WRITE, p_addr = Some '''h1000'',
                       p_data = Some '''hFF'', p_delay = Some (Num 0) \<rparr>,
       generatedCode = generateCode [] \<rparr>"

datatype BuilderEvent =
  KindClick TransactionKind | AddrChange string | DataChange string
  | DelayChange "code_unit list"
  | AddStep nat | RemoveStep string | ClearAll

fun builderEvent :: "BuilderEvent \<Rightarrow> Builder \<Rightarrow> Builder" where
  "builderEvent (KindClick k) b = onKindClick k b"
| "builderEvent (AddrChange v) b = onAddrChange v b"
| "builderEvent (DataChange v) b = onDataChange v b"
| "builderEvent (DelayChange v) b = onDelayChange v b"
| "builderEvent (AddStep now) b = addStep now b"
| "builderEvent (RemoveStep i) b = removeStep i b"
| "builderEvent ClearAll b = clearAll b"

inductive builderReachable :: "Builder \<Rightarrow> bool" where
  init: "builderReachable initialBuilder"
| event: "builderReachable b \<Longrightarrow> builderReachable (builderEvent e b)"

section \<open>App.tsx and UvmDiagram.tsx\<close>

datatype ViewMode = architecture | builder

definition WALKTHROUGH_STEPS :: "SimulationStep list" where
  "WALKTHROUGH_STEPS =
     [ \<lparr> sim_id = 0, label = ''Sequence Creation'', component = SEQUENCE \<rparr>,
       \<lparr> sim_id = 1, label = ''Sequencer Arbitration'', component = SEQUENCER \<rparr>,
       \<lparr> sim_id = 2, label = ''Driver Fetches Item'', component = DRIVER \<rparr>,
       \<lparr> sim_id = 3, label = ''Driving Signals (Pin Level)'', component = INTERFACE \<rparr>,
       \<lparr> sim_id = 4, label = ''DUT Execution'', component = DUT \<rparr>,
       \<lparr> sim_id = 5, label = ''Monitor Sampling'', component = MONITOR \<rparr>,
       \<lparr> sim_id = 6, label = ''Scoreboard Check'', component = SCOREBOARD \<rparr> ]"

record App =
  activeComponent :: UvmComponentType
  viewMode :: ViewMode
  simulationStepIndex :: int

text \<open>
  Reading \<open>.component\<close> of an array element: an index outside the array gives
  \<open>undefined\<close>, and the property access on it throws a TypeError.
\<close>

datatype error = TypeError

definition array_get :: "'a list \<Rightarrow> int \<Rightarrow> 'a option" where
  "array_get xs i = (if 0 \<le> i \<and> i < int (length xs) then Some (xs ! nat i) else None)"

definition handleViewChange :: "ViewMode \<Rightarrow> App \<Rightarrow> App" where
  "handleViewChange mode s =
     (let s' = s\<lparr>viewMode := mode, simulationStepIndex := - 1\<rparr>
      in if mode = builder then s'\<lparr>activeComponent := SEQUENCE\<rparr>
         else if activeComponent s = SEQUENCE then s'\<lparr>activeComponent := DRIVER\<rparr>
         else s')"

definition startSimulation :: "App \<Rightarrow> error + App" where
  "startSimulation s =
     (case array_get WALKTHROUGH_STEPS 0 of
        None \<Rightarrow> Inl TypeError
      | Some st \<Rightarrow> Inr (s\<lparr>simulationStepIndex := 0, activeComponent := component st\<rparr>))"

definition nextStep :: "App \<Rightarrow> error + App" where
  "nextStep s =
     (if simulationStepIndex s < int (length WALKTHROUGH_STEPS) - 1 then
        let next = simulationStepIndex s + 1
        in case array_get WALKTHROUGH_STEPS next of
             None \<Rightarrow> Inl TypeError
           | Some st \<Rightarrow> Inr (s\<lparr>simulationStepIndex := next, activeComponent := component st\<rparr>)
      else Inr s)"

definition prevStep :: "App \<Rightarrow> error + App" where
  "prevStep s =
     (if simulationStepIndex s > 0 then
        let prev = simulationStepIndex s - 1
        in case array_get WALKTHROUGH_STEPS prev of
             None \<Rightarrow> Inl TypeError
           | Some st \<Rightarrow> Inr (s\<lparr>simulationStepIndex := prev, activeComponent := component st\<rparr>)
      else Inr s)"

definition stopSimulation :: "App \<Rightarrow> App" where
  "stopSimulation s = s\<lparr>simulationStepIndex := - 1\<rparr>"

text \<open>
  UvmDiagram: \<open>isSimulating\<close>, and the \<open>onClick\<close> of a block of the diagram, whose
  \<open>onSelectComponent\<close> is the \<open>setActiveComponent\<close> of App.
\<close>

definition isSimulating :: "App \<Rightarrow> bool" where
  "isSimulating s = (simulationStepIndex s \<ge> 0)"

definition onSelectComponent :: "UvmComponentType \<Rightarrow> App \<Rightarrow> App" where
  "onSelectComponent c s = s\<lparr>activeComponent := c\<rparr>"

definition onClick :: "UvmComponentType \<Rightarrow> App \<Rightarrow> App" where
  "onClick c s = (if \<not> isSimulating s then onSelectComponent c s else s)"

definition initialApp :: App where
  "initialApp = \<lparr> activeComponent = DRIVER, viewMode = architecture, simulationStepIndex = - 1 \<rparr>"

datatype AppEvent = Start | Next | Prev | Stop | Click UvmComponentType | ViewChange ViewMode

fun appEvent :: "AppEvent \<Rightarrow> App \<Rightarrow> error + App" where
  "appEvent Start s = startSimulation s"
| "appEvent Next s = nextStep s"
| "appEvent Prev s = prevStep s"
| "appEvent Stop s = Inr (stopSimulation s)"
| "appEvent (Click c) s = Inr (onClick c s)"
| "appEvent (ViewChange m) s = Inr (handleViewChange m s)"

text \<open>A sequence of events; the first error ends it.\<close>

fun appEvents :: "AppEvent list \<Rightarrow> App \<Rightarrow> error + App" where
  "appEvents [] s = Inr s"
| "appEvents (e # es) s = (case appEvent e s of Inl err \<Rightarrow> Inl err | Inr s' \<Rightarrow> appEvents es s')"

inductive appReachable :: "App \<Rightarrow> bool" where
  app_init: "appReachable initialApp"
| app_event: "appReachable s \<Longrightarrow> appEvent e s = Inr s' \<Longrightarrow> appReachable s'"

section \<open>The text of generateCode\<close>

text \<open>
  The chains of \<open>code += ...\<close> as one concatenation. The lemmas are stated for
  arbitrary pieces first, so that no proof has to walk through the literal text.
\<close>

lemma let_chain_shape:
  "(let code = c0 @ A
    in if P then code @ B
       else let code = code @ C1; code = code @ C2; code = code @ C3; code = code @ C4;
                code = code @ C5; code = (if Q then code @ C6 else code);
                code = code @ C7; code = code @ C8; code = (if W then code @ C9 else code)
            in code @ C10) =
   c0 @ A @ (if P then B
             else C1 @ C2 @ C3 @ C4 @ C5 @ (if Q then C6 else []) @ C7 @ C8 @
                  (if W then C9 else []) @ C10)"
  by (simp add: Let_def)

lemma forEach_callback_eq:
  "forEach_callback code0 index step =
     code0 @ (''    // Step '' @ show_nat (index + 1) @ '': '' @ kind_text (kind step) @ ''\<newline>'') @
     (if kind step = IDLE then
        ''    #'' @ number_text (or_number (delay step) (Num 10)) @ '';\<newline>\<newline>''
      else
        ''    req = my_transaction::type_id::create(\"req\");\<newline>'' @
        ''    start_item(req);\<newline>'' @
        ''    if (!req.randomize() with {\<newline>'' @
        (''      addr == '' @ addr step @ '';\<newline>'') @
        (''      kind == '' @ kind_text (kind step) @ '';\<newline>'') @
        (if kind step = WRITE then ''      data == '' @ data step @ '';\<newline>'' else []) @
        ''    }) `uvm_error(\"SEQ\", \"Randomization failed\")\<newline>'' @
        ''    finish_item(req);\<newline>'' @
        (if gt_zero (delay step) then ''    #'' @ number_text (delay step) @ '';\<newline>'' else []) @
        ''\<newline>'')"
  unfolding forEach_callback_def by (rule let_chain_shape)

lemma forEach_callback_append:
  "forEach_callback code i s = code @ forEach_callback [] i s"
  by (simp only: forEach_callback_eq [of code] forEach_callback_eq [of "[]"] append_Nil)








lemma head_shape:
  "(let code = A; code = code @ B; code = code @ C; code = code @ D
    in if P then code @ E else code) = A @ B @ C @ D @ (if P then E else [])"
  by (simp add: Let_def)

lemma generateCode_head_eq:
  "generateCode_head ss =
     ''class my_custom_seq extends uvm_sequence #(my_transaction);\<newline>'' @
     ''  `uvm_object_utils(my_custom_seq)\<newline>\<newline>'' @
     ''  function new(string name = \"my_custom_seq\");\<newline>    super.new(name);\<newline>  endfunction\<newline>\<newline>'' @
     ''  virtual task body();\<newline>    my_transaction req;\<newline>\<newline>'' @
     (if length ss = 0 then ''    // Add transactions to see code here\<newline>'' else [])"
  unfolding generateCode_head_def by (rule head_shape)



text \<open>Decimal text: its characters, and that it determines the number.\<close>

lemma digit_char_digit: "d < 10 \<Longrightarrow> digit_char d \<in> set ''0123456789''"
  unfolding digit_char_def by (rule nth_mem) simp

lemma digit_char_inj: "a < 10 \<Longrightarrow> b < 10 \<Longrightarrow> digit_char a = digit_char b \<Longrightarrow> a = b"
proof -
  assume a: "a < 10" and b: "b < 10" and e: "digit_char a = digit_char b"
  have "distinct ''0123456789''" by simp
  moreover have "a < length ''0123456789''" "b < length ''0123456789''" using a b by simp_all
  ultimately show "a = b" using e unfolding digit_char_def by (simp only: nth_eq_iff_index_eq)
qed

lemma show_nat_digits: "set (show_nat n) \<subseteq> set ''0123456789''"
proof (induction n rule: show_nat.induct)
  case (1 n)
  show ?case
  proof (cases "n < 10")
    case True
    then show ?thesis using digit_char_digit [of n] by (subst show_nat.simps) simp
  next
    case False
    have "n mod 10 < 10" by simp
    from digit_char_digit [OF this] 1 [OF False] False show ?thesis
      by (subst show_nat.simps) simp
  qed
qed

lemma show_nat_nonempty: "show_nat n \<noteq> []"
  by (subst show_nat.simps) simp

lemma show_nat_inj: "show_nat m = show_nat n \<Longrightarrow> m = n"
proof (induction m arbitrary: n rule: show_nat.induct)
  case (1 m)
  show ?case
  proof (cases "m < 10")
    case m: True
    show ?thesis
    proof (cases "n < 10")
      case True
      with m 1(2) show ?thesis
        by (simp add: show_nat.simps [of m] show_nat.simps [of n] digit_char_inj)
    next
      case False
      with m 1(2) show_nat_nonempty [of "n div 10"] show ?thesis
        by (simp add: show_nat.simps [of m] show_nat.simps [of n])
    qed
  next
    case m: False
    show ?thesis
    proof (cases "n < 10")
      case True
      with m 1(2) show_nat_nonempty [of "m div 10"] show ?thesis
        by (simp add: show_nat.simps [of m] show_nat.simps [of n])
    next
      case False
      with m 1(2) have e: "show_nat (m div 10) = show_nat (n div 10)"
        "digit_char (m mod 10) = digit_char (n mod 10)"
        by (simp_all add: show_nat.simps [of m] show_nat.simps [of n])
      from 1(1) [OF m e(1)] have "m div 10 = n div 10" .
      moreover from e(2) have "m mod 10 = n mod 10" by (intro digit_char_inj) simp_all
      ultimately show ?thesis by (metis div_mult_mod_eq)
    qed
  qed
qed

lemma show_nat_chars: "c \<notin> set ''0123456789'' \<Longrightarrow> c \<notin> set (show_nat n)"
  using show_nat_digits [of n] by blast

lemma show_int_chars:
  assumes "c \<notin> set ''0123456789''" and "c \<noteq> CHR ''-''"
  shows "c \<notin> set (show_int i)"
proof (cases "i < 0")
  case True
  then have "set (show_int i) = insert (CHR ''-'') (set (show_nat (nat (- i))))"
    by (simp add: show_int_def)
  with assms show_nat_chars [OF assms(1)] show ?thesis by simp
next
  case False
  then have "show_int i = show_nat (nat i)" by (simp add: show_int_def)
  with show_nat_chars [OF assms(1)] show ?thesis by simp
qed

lemma show_int_inj: "show_int i = show_int j \<Longrightarrow> i = j"
proof -
  assume e: "show_int i = show_int j"
  have no_minus: "\<And>n. hd (show_nat n) \<noteq> CHR ''-''"
  proof -
    fix n
    have "hd (show_nat n) \<in> set (show_nat n)" using show_nat_nonempty by simp
    moreover have "CHR ''-'' \<notin> set (show_nat n)" by (rule show_nat_chars) simp
    ultimately show "hd (show_nat n) \<noteq> CHR ''-''" by metis
  qed
  show "i = j"
  proof (cases "i < 0")
    case i: True
    show ?thesis
    proof (cases "j < 0")
      case True
      with i e have "show_nat (nat (- i)) = show_nat (nat (- j))" by (simp add: show_int_def)
      from show_nat_inj [OF this] i True show ?thesis by simp
    next
      case False
      with i e have "CHR ''-'' # show_nat (nat (- i)) = show_nat (nat j)" by (simp add: show_int_def)
      then have "hd (show_nat (nat j)) = CHR ''-''" by (metis list.sel(1))
      with no_minus show ?thesis by blast
    qed
  next
    case i: False
    show ?thesis
    proof (cases "j < 0")
      case True
      with i e have "show_nat (nat i) = CHR ''-'' # show_nat (nat (- j))" by (simp add: show_int_def)
      then have "hd (show_nat (nat i)) = CHR ''-''" by (metis list.sel(1))
      with no_minus show ?thesis by blast
    next
      case False
      with i e have "show_nat (nat i) = show_nat (nat j)" by (simp add: show_int_def)
      from show_nat_inj [OF this] i False show ?thesis by simp
    qed
  qed
qed

lemma show_int_no_newline: "CHR ''\<newline>'' \<notin> set (show_int i)"
  by (rule show_int_chars) simp_all

lemma show_int_no_N: "CHR ''N'' \<notin> set (show_int i)"
  by (rule show_int_chars) simp_all

lemma number_text_no_newline: "CHR ''\<newline>'' \<notin> set (number_text n)"
  by (cases n) (simp_all add: show_int_no_newline)

lemma show_int_no_I: "CHR ''I'' \<notin> set (show_int i)"
  by (rule show_int_chars) simp_all

lemma number_text_Num:
  "show_int i \<noteq> ''NaN''" "show_int i \<noteq> ''Infinity''" "show_int i \<noteq> ''-Infinity''"
proof -
  have "CHR ''N'' \<in> set ''NaN''" "CHR ''I'' \<in> set ''Infinity''" "CHR ''I'' \<in> set ''-Infinity''"
    by simp_all
  with show_int_no_N [of i] show_int_no_I [of i]
  show "show_int i \<noteq> ''NaN''" "show_int i \<noteq> ''Infinity''" "show_int i \<noteq> ''-Infinity''"
    by metis+
qed

lemma number_text_inj: "number_text a = number_text b \<Longrightarrow> a = b"
proof -
  assume e: "number_text a = number_text b"
  show "a = b"
  proof (cases a)
    case NaN
    with e number_text_Num [of _] show ?thesis by (cases b) (simp_all, metis)
  next
    case (Num i)
    with e number_text_Num [of i] show_int_inj show ?thesis by (cases b) auto
  next
    case Infinity
    with e number_text_Num [of _] show ?thesis by (cases b) (simp_all, metis)
  next
    case NegInfinity
    with e number_text_Num [of _] show ?thesis by (cases b) (simp_all, metis)
  qed
qed

lemma first_line_eq:
  assumes "nl \<notin> set a" and "nl \<notin> set b" and "a @ nl # X = b @ nl # Y"
  shows "a = b \<and> X = Y"
  using assms
proof (induction a arbitrary: b)
  case Nil
  then show ?case by (cases b) auto
next
  case (Cons x a)
  then show ?case by (cases b) auto
qed


lemma mathInt_snoc:
  "mathInt R (Z @ [c]) = mathInt R Z * R + (case digitVal c of None \<Rightarrow> 0 | Some v \<Rightarrow> v)"
  by (simp add: mathInt_def)





text \<open>
  C9. For the empty list \<open>generateCode\<close> returns the class preamble, the one
  placeholder comment line and the closing text, and nothing else: no block of a step.
\<close>

theorem generateCode_empty:
  "generateCode [] =
     ''class my_custom_seq extends uvm_sequence #(my_transaction);\<newline>'' @
     ''  `uvm_object_utils(my_custom_seq)\<newline>\<newline>'' @
     ''  function new(string name = \"my_custom_seq\");\<newline>    super.new(name);\<newline>  endfunction\<newline>\<newline>'' @
     ''  virtual task body();\<newline>    my_transaction req;\<newline>\<newline>'' @
     ''    // Add transactions to see code here\<newline>'' @
     ''  endtask\<newline>endclass''"
  by (simp only: generateCode_def generateCode_head_eq Let_def forEach.simps list.size simp_thms if_True
      append_assoc)







section \<open>The list of steps\<close>

lemma or_string_nonempty: "d \<noteq> [] \<Longrightarrow> or_string x d \<noteq> []"
  by (cases x) simp_all

lemma steps_addStep:
  "steps (addStep now b) =
     steps b @ [\<lparr> id' = show_nat now,
                  kind = or_kind (p_kind (currentStep b)) WRITE,
                  addr = or_string (p_addr (currentStep b)) ''0'',
                  data = or_string (p_data (currentStep b)) ''0'',
                  delay = or_delay (p_delay (currentStep b)) (Num 0) \<rparr>]"
  by (simp add: addStep_def setSteps_def Let_def)

lemma builderReachable_text:
  assumes "builderReachable b"
  shows "\<forall>s \<in> set (steps b). addr s \<noteq> [] \<and> data s \<noteq> []"
  using assms
proof (induction rule: builderReachable.induct)
  case init
  show ?case by (simp add: initialBuilder_def)
next
  case (event b e)
  show ?case
  proof (cases e)
    case (AddStep now)
    with event.IH show ?thesis
      by (auto simp: steps_addStep or_string_nonempty)
  next
    case (RemoveStep i)
    with event.IH show ?thesis by (auto simp: removeStep_def setSteps_def)
  next
    case ClearAll
    then show ?thesis by (simp add: clearAll_def setSteps_def)
  next
    case (KindClick k)
    with event.IH show ?thesis by (simp add: onKindClick_def)
  next
    case (AddrChange v)
    with event.IH show ?thesis by (simp add: onAddrChange_def)
  next
    case (DataChange v)
    with event.IH show ?thesis by (simp add: onDataChange_def)
  next
    case (DelayChange v)
    with event.IH show ?thesis by (simp add: onDelayChange_def)
  qed
qed

lemma or_delay_cases:
  "or_delay x (Num 0) =
     (case x of None \<Rightarrow> Num 0 | Some NaN \<Rightarrow> Num 0
      | Some (Num d) \<Rightarrow> if d = 0 then Num 0 else Num d
      | Some Infinity \<Rightarrow> Infinity | Some NegInfinity \<Rightarrow> NegInfinity)"
  by (auto simp: or_number_def split: option.splits number.splits)

text \<open>
  C8. \<open>removeStep\<close> with an id that no step of the list has leaves the list as it
  is, and the generated text is the same before and after.
\<close>

theorem removeStep_absent:
  assumes "i \<notin> id' ` set (steps b)"
  shows "steps (removeStep i b) = steps b \<and>
         generateCode (steps (removeStep i b)) = generateCode (steps b) \<and>
         generatedCode (removeStep i b) = generateCode (steps b)"
proof -
  have "filter (\<lambda>s. id' s \<noteq> i) (steps b) = steps b"
    using assms by (auto intro: filter_True)
  then show ?thesis by (simp add: removeStep_def setSteps_def)
qed

theorem removeStep_absent_witness:
  "''7'' \<notin> id' ` set (steps (addStep 5 initialBuilder)) \<and>
   steps (removeStep ''7'' (addStep 5 initialBuilder)) = steps (addStep 5 initialBuilder) \<and>
   generatedCode (removeStep ''7'' (addStep 5 initialBuilder)) =
     generatedCode (addStep 5 initialBuilder)"
proof -
  have s: "steps (addStep 5 initialBuilder) =
      [\<lparr> id' = ''5'', kind = WRITE, addr = '''h1000'', data = '''hFF'', delay = Num 0 \<rparr>]"
    by (simp add: addStep_def setSteps_def initialBuilder_def or_number_def show_nat.simps
        digit_char_def Let_def)
  have h: "''7'' \<notin> id' ` set (steps (addStep 5 initialBuilder))"
    by (simp add: s)
  have g: "generatedCode (addStep 5 initialBuilder) = generateCode (steps (addStep 5 initialBuilder))"
    by (simp add: addStep_def setSteps_def Let_def)
  from h removeStep_absent [OF h] g show ?thesis by simp
qed

text \<open>
  C10. \<open>addStep\<close> appends one step; an absent or empty \<open>addr\<close> or \<open>data\<close> of the
  form is stored as the text \<open>0\<close>, an absent kind as WRITE, and an absent, zero or NaN
  delay as 0. So the appended step, and every step of a list that the handlers can
  build, has a non-empty \<open>addr\<close> and \<open>data\<close>.
\<close>

theorem addStep_no_empty_text:
  "\<exists>s. steps (addStep now b) = steps b @ [s] \<and>
       addr s = (case p_addr (currentStep b) of
                   None \<Rightarrow> ''0'' | Some a \<Rightarrow> if a = [] then ''0'' else a) \<and>
       data s = (case p_data (currentStep b) of
                   None \<Rightarrow> ''0'' | Some a \<Rightarrow> if a = [] then ''0'' else a) \<and>
       kind s = (case p_kind (currentStep b) of None \<Rightarrow> WRITE | Some k \<Rightarrow> k) \<and>
       delay s = (case p_delay (currentStep b) of
                    None \<Rightarrow> Num 0 | Some NaN \<Rightarrow> Num 0
                  | Some (Num d) \<Rightarrow> if d = 0 then Num 0 else Num d
                  | Some Infinity \<Rightarrow> Infinity | Some NegInfinity \<Rightarrow> NegInfinity) \<and>
       addr s \<noteq> [] \<and> data s \<noteq> [] \<and>
       (builderReachable b \<longrightarrow>
          (\<forall>t \<in> set (steps (addStep now b)). addr t \<noteq> [] \<and> data t \<noteq> []))"
proof -
  have "builderReachable b \<longrightarrow>
          (\<forall>t \<in> set (steps (addStep now b)). addr t \<noteq> [] \<and> data t \<noteq> [])"
    using builderReachable_text [OF event [of b "AddStep now"]] by simp
  then show ?thesis
    by (simp add: steps_addStep or_string_nonempty or_delay_cases
        split: option.splits)
qed

theorem addStep_no_empty_text_witness:
  "builderReachable (onDataChange '''' (onAddrChange '''' initialBuilder)) \<and>
   steps (addStep 5 (onDataChange '''' (onAddrChange '''' initialBuilder))) =
     [\<lparr> id' = ''5'', kind = WRITE, addr = ''0'', data = ''0'', delay = Num 0 \<rparr>]"
proof -
  let ?b = "onDataChange '''' (onAddrChange '''' initialBuilder)"
  have r: "builderReachable ?b"
    using event [OF event [OF init, of "AddrChange ''''"], of "DataChange ''''"] by simp
  have c: "steps ?b = []" "currentStep ?b =
      \<lparr> p_id = None, p_kind = Some WRITE, p_addr = Some '''', p_data = Some '''',
        p_delay = Some (Num 0) \<rparr>"
    by (simp_all add: onDataChange_def onAddrChange_def initialBuilder_def)
  have i: "id' s = ''5''" if "steps (addStep 5 ?b) = steps ?b @ [s]" for s
    using that by (auto simp: steps_addStep show_nat.simps digit_char_def)
  from addStep_no_empty_text [of 5 ?b] obtain s where
    s: "steps (addStep 5 ?b) = steps ?b @ [s]" "addr s = ''0''" "data s = ''0''"
      "kind s = WRITE" "delay s = Num 0"
    unfolding c by auto
  from s i [OF s(1)] have "s = \<lparr> id' = ''5'', kind = WRITE, addr = ''0'', data = ''0'', delay = Num 0 \<rparr>"
    by simp
  with s(1) c(1) r show ?thesis by simp
qed

section \<open>The delay field\<close>

lemma parseInt_minus_5: "parseInt (utf16 ''-5'') = Num (- 5)"
  by (simp add: parseInt_def Let_def utf16_def isWhiteSpace_def isRadixDigit_def digitVal_def
      mathInt_def roundToDouble_def)

lemma parseInt_42: "parseInt (utf16 ''42'') = Num 42"
  by (simp add: parseInt_def Let_def utf16_def isWhiteSpace_def isRadixDigit_def digitVal_def
      mathInt_def roundToDouble_def)

lemma parseInt_abc: "parseInt (utf16 ''abc'') = NaN"
  by (simp add: parseInt_def Let_def utf16_def isWhiteSpace_def isRadixDigit_def digitVal_def
      mathInt_def roundToDouble_def)

lemma p_delay_onDelayChange:
  "p_delay (currentStep (onDelayChange v b)) = Some (or_number (parseInt v) (Num 0))"
  by (simp add: onDelayChange_def)

text \<open>
  What \<open>parseInt\<close> returns, in terms of the sign, the radix and the digits it reads.
\<close>

lemma parseInt_shape:
  "\<exists>sg R Z. (sg = - 1 \<longrightarrow> of_char CHR ''-'' \<in> set v) \<and> 0 < R \<and> R \<le> 16 \<and>
     (\<forall>c \<in> set Z. isRadixDigit R c) \<and> length Z \<le> length v \<and>
     parseInt v =
       (if Z = [] then NaN
        else case roundToDouble (mathInt R Z) of
               None \<Rightarrow> (if sg = - 1 then NegInfinity else Infinity)
             | Some x \<Rightarrow> Num (sg * int x)) \<and>
     (sg = 1 \<or> sg = - 1)"
proof -
  define S0 where "S0 = dropWhile isWhiteSpace v"
  define sg where "sg = (if S0 \<noteq> [] \<and> hd S0 = of_char CHR ''-'' then - 1 else (1::int))"
  define S1 where "S1 = (if S0 \<noteq> [] \<and> (hd S0 = of_char CHR ''+'' \<or> hd S0 = of_char CHR ''-'')
               then tl S0 else S0)"
  define hex where "hex = (2 \<le> length S1 \<and> (take 2 S1 = utf16 ''0x'' \<or> take 2 S1 = utf16 ''0X''))"
  define R :: nat where "R = (if hex then 16 else 10)"
  define S2 where "S2 = (if hex then drop 2 S1 else S1)"
  define Z where "Z = takeWhile (isRadixDigit R) S2"
  have eq: "parseInt v =
       (if Z = [] then NaN
        else case roundToDouble (mathInt R Z) of
               None \<Rightarrow> (if sg = - 1 then NegInfinity else Infinity)
             | Some x \<Rightarrow> Num (sg * int x))"
    unfolding parseInt_def Let_def Z_def S2_def R_def hex_def S1_def sg_def S0_def
    by (rule refl)
  have "set S0 \<subseteq> set v" unfolding S0_def by (rule set_dropWhileD [THEN subsetI])
  moreover have "sg = - 1 \<longrightarrow> S0 \<noteq> [] \<and> hd S0 = of_char CHR ''-''"
    by (simp add: sg_def)
  ultimately have minus: "sg = - 1 \<longrightarrow> of_char CHR ''-'' \<in> set v"
    by (metis hd_in_set subsetD)
  have l0: "length S0 \<le> length v" unfolding S0_def by (rule length_dropWhile_le)
  have l1: "length S1 \<le> length S0" by (simp add: S1_def)
  have l2: "length S2 \<le> length S1" by (simp add: S2_def)
  have l3: "length Z \<le> length S2" unfolding Z_def by (rule length_takeWhile_le)
  from l0 l1 l2 l3 have len: "length Z \<le> length v" by simp
  have R: "0 < R" "R \<le> 16" by (simp_all add: R_def)
  have digits: "\<forall>c \<in> set Z. isRadixDigit R c" unfolding Z_def by (auto dest: set_takeWhileD)
  have s: "sg = 1 \<or> sg = - 1" by (simp add: sg_def)
  from minus R digits len eq s show ?thesis by blast
qed

text \<open>Without a minus sign in the text the sign that \<open>parseInt\<close> reads is \<open>+\<close>.\<close>

lemma parseInt_sign:
  assumes "of_char CHR ''-'' \<notin> set v"
  shows "parseInt v \<noteq> NegInfinity \<and> (\<forall>n. parseInt v = Num n \<longrightarrow> 0 \<le> n)"
proof -
  from parseInt_shape [of v] obtain sg R Z where
    m: "sg = - 1 \<longrightarrow> of_char CHR ''-'' \<in> set v"
    and eq: "parseInt v =
       (if Z = [] then NaN
        else case roundToDouble (mathInt R Z) of
               None \<Rightarrow> (if sg = - 1 then NegInfinity else Infinity)
             | Some x \<Rightarrow> Num (sg * int x))"
    and s: "sg = 1 \<or> sg = - 1"
    by blast
  from m s assms have "sg = 1" by blast
  with eq show ?thesis by (simp split: option.splits if_splits)
qed

text \<open>A text of at most 255 code units is below \<open>2^1020\<close>, where every double is finite.\<close>

lemma bitlen_bound: "n < 2 ^ bitlen n"
proof (induction n rule: bitlen.induct)
  case (1 n)
  show ?case
  proof (cases "n = 0")
    case True
    then show ?thesis by (subst bitlen.simps) simp
  next
    case False
    from 1 [OF False] have "n div 2 < 2 ^ bitlen (n div 2)" .
    then have "n < 2 * 2 ^ bitlen (n div 2)" by arith
    with False show ?thesis by (subst bitlen.simps) simp
  qed
qed

lemma bitlen_le: "n < 2 ^ k \<Longrightarrow> bitlen n \<le> k"
proof (induction n arbitrary: k rule: bitlen.induct)
  case (1 n)
  show ?case
  proof (cases "n = 0")
    case True
    then show ?thesis by (subst bitlen.simps) simp
  next
    case False
    with 1(2) obtain j where k: "k = Suc j" by (cases k) auto
    with 1(2) have "n div 2 < 2 ^ j" by simp
    from 1(1) [OF False this] k False show ?thesis by (subst bitlen.simps) simp
  qed
qed

lemma roundToDouble_finite:
  assumes "n < 2 ^ 1020"
  shows "\<exists>x. roundToDouble n = Some x"
proof (cases "n < 2 ^ 53")
  case True
  then show ?thesis by (simp only: roundToDouble_def if_True) blast
next
  case False
  define e where "e = bitlen n - 53"
  define q where "q = n div 2 ^ e"
  define q' where "q' = (if n mod 2 ^ e > 2 ^ (e - 1) \<or> (n mod 2 ^ e = 2 ^ (e - 1) \<and> odd q)
      then q + 1 else q)"
  have eq: "roundToDouble n =
      (if n < 2 ^ 53 then Some n
       else if q' * 2 ^ e < 2 ^ 1024 then Some (q' * 2 ^ e) else None)"
    unfolding roundToDouble_def Let_def q'_def q_def e_def by (rule refl)
  from False bitlen_bound [of n] have "(2::nat) ^ 53 < 2 ^ bitlen n" by (rule le_less_trans [OF leI])
  then have "53 < bitlen n" by (rule power_less_imp_less_exp [rotated]) simp
  then have b: "bitlen n = e + 53" by (simp add: e_def)
  from bitlen_le [OF assms] b have e: "e + 53 \<le> 1020" by simp
  from bitlen_bound [of n] b have "n < 2 ^ 53 * 2 ^ e" by (simp only: power_add mult.commute)
  then have "q < 2 ^ 53" unfolding q_def by (rule less_mult_imp_div_less)
  then have "q' \<le> 2 ^ 53" unfolding q'_def by (simp only: split: if_split) arith
  then have "q' * 2 ^ e \<le> 2 ^ 53 * 2 ^ e" by (rule mult_le_mono1)
  also have "\<dots> = 2 ^ (e + 53)" by (simp only: power_add mult.commute)
  also from e have "\<dots> \<le> (2::nat) ^ 1020" by (intro power_increasing) simp_all
  also have "\<dots> < (2::nat) ^ 1024" by (intro power_strict_increasing) simp_all
  finally have "q' * 2 ^ e < 2 ^ 1024" .
  with False eq show ?thesis by (simp only: if_True if_False) blast
qed

lemma mathInt_bound:
  assumes "\<forall>c \<in> set Z. isRadixDigit R c" and "0 < R"
  shows "mathInt R Z < R ^ length Z"
  using assms(1)
proof (induction Z rule: rev_induct)
  case Nil
  show ?case by (simp add: mathInt_def)
next
  case (snoc c Z)
  then have "mathInt R Z < R ^ length Z" by simp
  then have m: "mathInt R Z + 1 \<le> R ^ length Z" by simp
  from snoc.prems obtain v where v: "digitVal c = Some v" "v < R"
    by (auto simp: isRadixDigit_def split: option.splits)
  have "mathInt R (Z @ [c]) = mathInt R Z * R + v" by (simp add: mathInt_snoc v)
  also from v(2) have "\<dots> < (mathInt R Z + 1) * R" by simp
  also from m have "\<dots> \<le> R ^ length Z * R" by (rule mult_le_mono1)
  finally show ?case by (simp add: mult.commute)
qed

lemma parseInt_short:
  assumes "length v \<le> 255"
  shows "parseInt v = NaN \<or> (\<exists>n. parseInt v = Num n)"
proof -
  from parseInt_shape [of v] obtain sg R Z where
    R: "0 < R" "R \<le> 16" and digits: "\<forall>c \<in> set Z. isRadixDigit R c"
    and len: "length Z \<le> length v"
    and eq: "parseInt v =
       (if Z = [] then NaN
        else case roundToDouble (mathInt R Z) of
               None \<Rightarrow> (if sg = - 1 then NegInfinity else Infinity)
             | Some x \<Rightarrow> Num (sg * int x))"
    by blast
  from len assms have len': "length Z \<le> 255" by simp
  from mathInt_bound [OF digits R(1)] have "mathInt R Z < R ^ length Z" .
  also from R(2) have "\<dots> \<le> 16 ^ length Z" by (rule power_mono) simp
  also from len' have "\<dots> \<le> (16::nat) ^ 255" by (intro power_increasing) simp_all
  also have "\<dots> = (2 ^ 4) ^ 255" by simp
  also have "\<dots> = (2::nat) ^ 1020" by (simp only: power_mult [symmetric]) simp
  finally obtain x where "roundToDouble (mathInt R Z) = Some x"
    using roundToDouble_finite by blast
  with eq show ?thesis by simp
qed

text \<open>
  Three texts beyond the plain case: an integer that no double holds is rounded, a run
  of 400 digits is an infinity, and a no-break space before the sign is skipped.
\<close>

lemma bitlen_example: "bitlen 9007199254740993 = 54"
  by (simp add: bitlen.simps)

lemma roundToDouble_example: "roundToDouble 9007199254740993 = Some 9007199254740992"
  by (simp add: roundToDouble_def bitlen_example Let_def)

lemma parseInt_rounds: "parseInt (utf16 ''9007199254740993'') = Num 9007199254740992"
  by (simp add: parseInt_def Let_def utf16_def isWhiteSpace_def isRadixDigit_def digitVal_def
      mathInt_def roundToDouble_example)

lemma bitlen_lower: "n \<noteq> 0 \<Longrightarrow> 2 ^ (bitlen n - 1) \<le> n"
proof (induction n rule: bitlen.induct)
  case (1 n)
  show ?case
  proof (cases "n div 2 = 0")
    case True
    with 1(2) have "n = 1" by arith
    then show ?thesis by (simp add: bitlen.simps [of "Suc 0"] bitlen.simps [of 0])
  next
    case False
    from 1(1) [OF 1(2) False] have "2 ^ (bitlen (n div 2) - 1) \<le> n div 2" .
    then have "2 * 2 ^ (bitlen (n div 2) - 1) \<le> n" by arith
    moreover from False have "0 < bitlen (n div 2)" by (subst bitlen.simps) simp
    ultimately have "2 ^ bitlen (n div 2) \<le> n"
      by (cases "bitlen (n div 2)") simp_all
    with 1(2) show ?thesis by (subst bitlen.simps) simp
  qed
qed

lemma roundToDouble_overflow:
  assumes "2 ^ 1024 \<le> n"
  shows "roundToDouble n = None"
proof -
  define e where "e = bitlen n - 53"
  define q where "q = n div 2 ^ e"
  define q' where "q' = (if n mod 2 ^ e > 2 ^ (e - 1) \<or> (n mod 2 ^ e = 2 ^ (e - 1) \<and> odd q)
      then q + 1 else q)"
  have eq: "roundToDouble n =
      (if n < 2 ^ 53 then Some n
       else if q' * 2 ^ e < 2 ^ 1024 then Some (q' * 2 ^ e) else None)"
    unfolding roundToDouble_def Let_def q'_def q_def e_def by (rule refl)
  have "(2::nat) ^ 53 \<le> 2 ^ 1024" by (intro power_increasing) simp_all
  with assms have big: "\<not> n < 2 ^ 53" by simp
  from assms bitlen_bound [of n] have "(2::nat) ^ 1024 < 2 ^ bitlen n" by (rule le_less_trans)
  then have b: "1024 < bitlen n" by (rule power_less_imp_less_exp [rotated]) simp
  then have be: "bitlen n - 1 = e + 52" by (simp add: e_def)
  from assms have "n \<noteq> 0" by auto
  from bitlen_lower [OF this] be have low: "2 ^ e * 2 ^ 52 \<le> n" by (simp add: power_add)
  have "(2::nat) ^ 52 = 2 ^ e * 2 ^ 52 div 2 ^ e" by simp
  also from low have "\<dots> \<le> q" unfolding q_def by (rule div_le_mono)
  finally have q: "2 ^ 52 \<le> q'" by (simp add: q'_def)
  from b have "(2::nat) ^ 1024 \<le> 2 ^ (bitlen n - 1)" by (intro power_increasing) simp_all
  also have "\<dots> = 2 ^ 52 * 2 ^ e" by (simp only: be power_add mult.commute)
  also from q have "\<dots> \<le> q' * 2 ^ e" by (rule mult_le_mono1)
  finally have "\<not> q' * 2 ^ e < 2 ^ 1024" by (simp only: not_less)
  with big eq show ?thesis by (simp only: if_False)
qed

lemma mathInt_nines: "mathInt 10 (replicate k 57) = 10 ^ k - 1"
proof (induction k)
  case 0
  show ?case by (simp add: mathInt_def)
next
  case (Suc k)
  have "mathInt 10 (replicate (Suc k) 57) = mathInt 10 (replicate k 57 @ [57])"
    by (simp add: replicate_append_same)
  also have "\<dots> = (10 ^ k - 1) * 10 + 9"
    by (simp add: mathInt_snoc Suc digitVal_def)
  also have "\<dots> = 10 ^ Suc k - 1"
  proof -
    have "(1::nat) \<le> 10 ^ k" by simp
    then show ?thesis by (simp add: algebra_simps)
  qed
  finally show ?case .
qed

lemma parseInt_infinite: "parseInt (replicate 400 (of_char CHR ''9'')) = Infinity"
proof -
  let ?v = "replicate 400 (57::nat)"
  have nine: "\<not> isWhiteSpace 57" "isRadixDigit 10 57"
    by (simp_all add: isWhiteSpace_def isRadixDigit_def digitVal_def)
  have h: "hd ?v = 57" "?v \<noteq> []" by simp_all
  with nine have d: "dropWhile isWhiteSpace ?v = ?v" by (simp add: dropWhile_eq_self_iff)
  from nine have z: "takeWhile (isRadixDigit 10) ?v = ?v" by (simp add: takeWhile_eq_all_conv)
  have "(2::nat) ^ 1024 \<le> 10 ^ 400 - 1" by simp
  then have r: "roundToDouble (mathInt 10 ?v) = None"
    by (simp only: mathInt_nines roundToDouble_overflow)
  have "parseInt ?v = Infinity"
    by (simp add: parseInt_def Let_def d h z r nine utf16_def numeral_2_eq_2)
  then show ?thesis by simp
qed

lemma parseInt_nbsp: "parseInt (0xA0 # utf16 ''-5'') = Num (- 5)"
  by (simp add: parseInt_def Let_def utf16_def isWhiteSpace_def isRadixDigit_def digitVal_def
      mathInt_def roundToDouble_def)

text \<open>
  C2 (amended). For every text entered into the delay field the value stored in the
  pending step is never NaN and never absent: it is 0 when \<open>parseInt\<close> reads no number
  from the text, and the number \<open>parseInt\<close> reads otherwise. For a text of at most 255
  code units that number is an integer (a longer run of digits can give an infinity).
  It is neither negative nor the negative infinity when the text holds no minus sign;
  nothing in the handler keeps a negative number out.
\<close>

theorem onDelayChange_stored:
  "(parseInt v = NaN \<longrightarrow> p_delay (currentStep (onDelayChange v b)) = Some (Num 0)) \<and>
   (parseInt v \<noteq> NaN \<longrightarrow> p_delay (currentStep (onDelayChange v b)) = Some (parseInt v)) \<and>
   p_delay (currentStep (onDelayChange v b)) \<noteq> None \<and>
   p_delay (currentStep (onDelayChange v b)) \<noteq> Some NaN \<and>
   (length v \<le> 255 \<longrightarrow> (\<exists>n. p_delay (currentStep (onDelayChange v b)) = Some (Num n))) \<and>
   (of_char CHR ''-'' \<notin> set v \<longrightarrow>
      p_delay (currentStep (onDelayChange v b)) \<noteq> Some NegInfinity \<and>
      (\<forall>n. p_delay (currentStep (onDelayChange v b)) = Some (Num n) \<longrightarrow> 0 \<le> n))"
proof -
  have a: "parseInt v = NaN \<longrightarrow> or_number (parseInt v) (Num 0) = Num 0"
    by (simp add: or_number_def)
  have b: "parseInt v \<noteq> NaN \<longrightarrow> or_number (parseInt v) (Num 0) = parseInt v"
    by (cases "parseInt v") (simp_all add: or_number_def)
  have c: "or_number (parseInt v) (Num 0) \<noteq> NaN"
    by (cases "parseInt v") (simp_all add: or_number_def)
  have d: "length v \<le> 255 \<longrightarrow> (\<exists>n. or_number (parseInt v) (Num 0) = Num n)"
    using parseInt_short [of v] a b by auto
  have e: "of_char CHR ''-'' \<notin> set v \<longrightarrow>
      or_number (parseInt v) (Num 0) \<noteq> NegInfinity \<and>
      (\<forall>n. or_number (parseInt v) (Num 0) = Num n \<longrightarrow> 0 \<le> n)"
    using parseInt_sign [of v] by (cases "parseInt v") (auto simp: or_number_def)
  from a b c d e show ?thesis by (simp only: p_delay_onDelayChange) simp
qed

theorem onDelayChange_stored_witness:
  "p_delay (currentStep (onDelayChange (utf16 ''42'') initialBuilder)) = Some (Num 42) \<and>
   p_delay (currentStep (onDelayChange (utf16 ''abc'') initialBuilder)) = Some (Num 0)"
  using onDelayChange_stored [of "utf16 ''42''" initialBuilder]
    onDelayChange_stored [of "utf16 ''abc''" initialBuilder]
  by (simp add: parseInt_42 parseInt_abc)

text \<open>
  The claim as written asks for a non-negative value for every text. The text \<open>-5\<close>
  is stored as the number \<open>-5\<close>.
\<close>

theorem onDelayChange_negative_counterexample:
  "p_delay (currentStep (onDelayChange (utf16 ''-5'') initialBuilder)) = Some (Num (- 5)) \<and>
   \<not> (0::int) \<le> - 5"
  by (simp add: p_delay_onDelayChange parseInt_minus_5 or_number_def)

section \<open>The order of the steps\<close>

text \<open>
  Two blocks of the shape that \<open>forEach_callback\<close> writes, each followed by any
  text: when the two texts are equal, the pieces are equal line by line, as long as the
  pieces that come from the steps hold no line break.
\<close>

lemma kind_text_inj: "kind_text a = kind_text b \<Longrightarrow> a = b"
  by (cases a; cases b) simp_all

lemma kind_text_no_newline: "CHR ''\<newline>'' \<notin> set (kind_text k)"
  by (cases k) simp_all

lemma block_compare:
  assumes eq:
    "((P1 @ SN @ P2 @ kA @ NL) @
      (if iA then W @ nA @ TI
       else L1 @ L2 @ L3 @ (LA @ aA @ T) @ (LK @ kA @ T) @ (if wA then LD @ dA @ T else []) @
            L7 @ L8 @ (if gA then W @ mA @ T else []) @ NL)) @ X =
     ((P1 @ SN @ P2 @ kB @ NL) @
      (if iB then W @ nB @ TI
       else L1 @ L2 @ L3 @ (LA @ aB @ T) @ (LK @ kB @ T) @ (if wB then LD @ dB @ T else []) @
            L7 @ L8 @ (if gB then W @ mB @ T else []) @ NL)) @ Y"
    and NL: "NL = [nl]" and T: "T = semi @ [nl]" and TI: "TI = T @ NL"
    and W: "W = w # W'" "w \<noteq> nl"
    and k: "nl \<notin> set kA" "nl \<notin> set kB"
    and kinds: "kA = kB \<Longrightarrow> iA = iB \<and> wA = wB"
    and nums: "nl \<notin> set nA" "nl \<notin> set nB" "nl \<notin> set mA" "nl \<notin> set mB"
    and semi: "nl \<notin> set semi"
  shows "kA = kB \<and> (iA \<longrightarrow> nA = nB) \<and>
         (\<not> iA \<longrightarrow> nl \<notin> set aA \<longrightarrow> nl \<notin> set aB \<longrightarrow>
            aA = aB \<and>
            ((wA \<longrightarrow> nl \<notin> set dA \<and> nl \<notin> set dB) \<longrightarrow>
               (wA \<longrightarrow> dA = dB) \<and> gA = gB \<and> (gA \<longrightarrow> mA = mB)))"
proof -
  define RA where "RA = (if iA then W @ nA @ TI
       else L1 @ L2 @ L3 @ (LA @ aA @ T) @ (LK @ kA @ T) @ (if wA then LD @ dA @ T else []) @
            L7 @ L8 @ (if gA then W @ mA @ T else []) @ NL) @ X"
  define RB where "RB = (if iB then W @ nB @ TI
       else L1 @ L2 @ L3 @ (LA @ aB @ T) @ (LK @ kB @ T) @ (if wB then LD @ dB @ T else []) @
            L7 @ L8 @ (if gB then W @ mB @ T else []) @ NL) @ Y"
  from eq have "kA @ nl # RA = kB @ nl # RB"
    by (simp add: RA_def RB_def NL)
  from first_line_eq [OF k this] have kk: "kA = kB" and R: "RA = RB" by simp_all
  from kinds [OF kk] have ii: "iA = iB" and ww: "wA = wB" by simp_all
  have idle: "nA = nB" if "iA"
  proof -
    from R that ii have "(nA @ semi) @ nl # (nl # X) = (nB @ semi) @ nl # (nl # Y)"
      by (simp add: RA_def RB_def TI T NL)
    moreover have "nl \<notin> set (nA @ semi)" "nl \<notin> set (nB @ semi)" using nums semi by simp_all
    ultimately have "nA @ semi = nB @ semi \<and> nl # X = nl # Y" by (rule first_line_eq [rotated 2])
    then show ?thesis by simp
  qed
  have rw: "aA = aB \<and>
            ((wA \<longrightarrow> nl \<notin> set dA \<and> nl \<notin> set dB) \<longrightarrow>
               (wA \<longrightarrow> dA = dB) \<and> gA = gB \<and> (gA \<longrightarrow> mA = mB))"
    if ni: "\<not> iA" and a: "nl \<notin> set aA" "nl \<notin> set aB"
  proof -
    define SA where "SA = (if wA then LD @ dA @ T else []) @
            L7 @ L8 @ (if gA then W @ mA @ T else []) @ NL @ X"
    define SB where "SB = (if wB then LD @ dB @ T else []) @
            L7 @ L8 @ (if gB then W @ mB @ T else []) @ NL @ Y"
    from R ni ii have "(aA @ semi) @ nl # (LK @ kA @ T @ SA) = (aB @ semi) @ nl # (LK @ kB @ T @ SB)"
      by (simp add: RA_def RB_def SA_def SB_def T)
    moreover have "nl \<notin> set (aA @ semi)" "nl \<notin> set (aB @ semi)" using a semi by simp_all
    ultimately have "aA @ semi = aB @ semi \<and> LK @ kA @ T @ SA = LK @ kB @ T @ SB"
      by (rule first_line_eq [rotated 2])
    with kk have aa: "aA = aB" and S: "SA = SB" by simp_all
    have rest: "(wA \<longrightarrow> dA = dB) \<and> gA = gB \<and> (gA \<longrightarrow> mA = mB)"
      if d: "wA \<longrightarrow> nl \<notin> set dA \<and> nl \<notin> set dB"
    proof -
      define UA where "UA = (if gA then W @ mA @ T else []) @ NL @ X"
      define UB where "UB = (if gB then W @ mB @ T else []) @ NL @ Y"
      have dd: "(wA \<longrightarrow> dA = dB) \<and> UA = UB"
      proof (cases wA)
        case True
        with S ww have "(dA @ semi) @ nl # (L7 @ L8 @ UA) = (dB @ semi) @ nl # (L7 @ L8 @ UB)"
          by (simp add: SA_def SB_def UA_def UB_def T)
        moreover have "nl \<notin> set (dA @ semi)" "nl \<notin> set (dB @ semi)"
          using d True semi by simp_all
        ultimately have "dA @ semi = dB @ semi \<and> L7 @ L8 @ UA = L7 @ L8 @ UB"
          by (rule first_line_eq [rotated 2])
        then show ?thesis by simp
      next
        case False
        with S ww show ?thesis by (simp add: SA_def SB_def UA_def UB_def)
      qed
      then have U: "UA = UB" by simp
      have "gA = gB \<and> (gA \<longrightarrow> mA = mB)"
      proof (cases gA; cases gB)
        assume g: gA gB
        with U have "(mA @ semi) @ nl # (nl # X) = (mB @ semi) @ nl # (nl # Y)"
          by (simp add: UA_def UB_def T NL)
        moreover have "nl \<notin> set (mA @ semi)" "nl \<notin> set (mB @ semi)"
          using nums semi by simp_all
        ultimately have "mA @ semi = mB @ semi \<and> nl # X = nl # Y"
          by (rule first_line_eq [rotated 2])
        with g show ?thesis by simp
      next
        assume g: gA "\<not> gB"
        with U W show ?thesis by (simp add: UA_def UB_def NL)
      next
        assume g: "\<not> gA" gB
        with U W show ?thesis by (auto simp add: UA_def UB_def NL)
      next
        assume g: "\<not> gA" "\<not> gB"
        then show ?thesis by simp
      qed
      with dd show ?thesis by simp
    qed
    from aa rest show ?thesis by simp
  qed
  from kk idle rw show ?thesis by blast
qed

lemma forEach_callback_block:
  "forEach_callback [] index step =
     (''    // Step '' @ show_nat (index + 1) @ '': '' @ kind_text (kind step) @ ''\<newline>'') @
     (if kind step = IDLE then
        ''    #'' @ number_text (or_number (delay step) (Num 10)) @ '';\<newline>\<newline>''
      else
        ''    req = my_transaction::type_id::create(\"req\");\<newline>'' @
        ''    start_item(req);\<newline>'' @
        ''    if (!req.randomize() with {\<newline>'' @
        (''      addr == '' @ addr step @ '';\<newline>'') @
        (''      kind == '' @ kind_text (kind step) @ '';\<newline>'') @
        (if kind step = WRITE then ''      data == '' @ data step @ '';\<newline>'' else []) @
        ''    }) `uvm_error(\"SEQ\", \"Randomization failed\")\<newline>'' @
        ''    finish_item(req);\<newline>'' @
        (if gt_zero (delay step) then ''    #'' @ number_text (delay step) @ '';\<newline>'' else []) @
        ''\<newline>'')"
  by (simp only: forEach_callback_eq [of "[]"] append_Nil)

lemma callback_prefix_free:
  assumes eq: "forEach_callback [] i A @ X = forEach_callback [] i B @ Y"
  shows "kind A = kind B \<and>
         (kind A = IDLE \<longrightarrow> or_number (delay A) (Num 10) = or_number (delay B) (Num 10)) \<and>
         (kind A \<noteq> IDLE \<longrightarrow>
            CHR ''\<newline>'' \<notin> set (addr A) \<longrightarrow> CHR ''\<newline>'' \<notin> set (addr B) \<longrightarrow>
            addr A = addr B \<and>
            ((kind A = WRITE \<longrightarrow>
                CHR ''\<newline>'' \<notin> set (data A) \<and> CHR ''\<newline>'' \<notin> set (data B)) \<longrightarrow>
               (kind A = WRITE \<longrightarrow> data A = data B) \<and>
               gt_zero (delay A) = gt_zero (delay B) \<and>
               (gt_zero (delay A) \<longrightarrow> delay A = delay B)))"
proof -
  note e = eq [unfolded forEach_callback_block]
  have kinds: "kind_text (kind A) = kind_text (kind B) \<Longrightarrow>
      (kind A = IDLE) = (kind B = IDLE) \<and> (kind A = WRITE) = (kind B = WRITE)"
    by (auto dest: kind_text_inj)
  have c: "kind_text (kind A) = kind_text (kind B) \<and>
         (kind A = IDLE \<longrightarrow>
            number_text (or_number (delay A) (Num 10)) = number_text (or_number (delay B) (Num 10))) \<and>
         (\<not> kind A = IDLE \<longrightarrow>
            CHR ''\<newline>'' \<notin> set (addr A) \<longrightarrow> CHR ''\<newline>'' \<notin> set (addr B) \<longrightarrow>
            addr A = addr B \<and>
            ((kind A = WRITE \<longrightarrow>
                CHR ''\<newline>'' \<notin> set (data A) \<and> CHR ''\<newline>'' \<notin> set (data B)) \<longrightarrow>
               (kind A = WRITE \<longrightarrow> data A = data B) \<and>
               gt_zero (delay A) = gt_zero (delay B) \<and>
               (gt_zero (delay A) \<longrightarrow> number_text (delay A) = number_text (delay B))))"
  proof (rule block_compare [OF e, where nl = "CHR ''\<newline>''" and semi = "'';''"
        and w = "CHR '' ''" and W' = "''   #''"])
    show "''\<newline>'' = [CHR ''\<newline>'']" by simp
    show "'';\<newline>'' = '';'' @ [CHR ''\<newline>'']" by simp
    show "'';\<newline>\<newline>'' = '';\<newline>'' @ ''\<newline>''" by simp
    show "''    #'' = CHR '' '' # ''   #''" by simp
    show "CHR '' '' \<noteq> CHR ''\<newline>''" by simp
    show "CHR ''\<newline>'' \<notin> set (kind_text (kind A))" by (rule kind_text_no_newline)
    show "CHR ''\<newline>'' \<notin> set (kind_text (kind B))" by (rule kind_text_no_newline)
    show "kind_text (kind A) = kind_text (kind B) \<Longrightarrow>
      (kind A = IDLE) = (kind B = IDLE) \<and> (kind A = WRITE) = (kind B = WRITE)"
      by (rule kinds)
    show "CHR ''\<newline>'' \<notin> set (number_text (or_number (delay A) (Num 10)))"
      by (rule number_text_no_newline)
    show "CHR ''\<newline>'' \<notin> set (number_text (or_number (delay B) (Num 10)))"
      by (rule number_text_no_newline)
    show "CHR ''\<newline>'' \<notin> set (number_text (delay A))" by (rule number_text_no_newline)
    show "CHR ''\<newline>'' \<notin> set (number_text (delay B))" by (rule number_text_no_newline)
    show "CHR ''\<newline>'' \<notin> set '';''" by simp
  qed
  from c have "kind A = kind B" by (blast dest: kind_text_inj)
  moreover from c have "kind A = IDLE \<longrightarrow>
      or_number (delay A) (Num 10) = or_number (delay B) (Num 10)"
    using number_text_inj by blast
  moreover from c have "kind A \<noteq> IDLE \<longrightarrow>
            CHR ''\<newline>'' \<notin> set (addr A) \<longrightarrow> CHR ''\<newline>'' \<notin> set (addr B) \<longrightarrow>
            addr A = addr B \<and>
            ((kind A = WRITE \<longrightarrow>
                CHR ''\<newline>'' \<notin> set (data A) \<and> CHR ''\<newline>'' \<notin> set (data B)) \<longrightarrow>
               (kind A = WRITE \<longrightarrow> data A = data B) \<and>
               gt_zero (delay A) = gt_zero (delay B) \<and>
               (gt_zero (delay A) \<longrightarrow> delay A = delay B))"
    using number_text_inj [of "delay A" "delay B"] by blast
  ultimately show ?thesis by blast
qed

lemma generateCode_pair:
  "generateCode [A, B] =
     generateCode_head [A, B] @ forEach_callback [] 0 A @ forEach_callback [] 1 B @
     ''  endtask\<newline>endclass''"
proof -
  have "forEach (generateCode_head [A, B]) 0 [A, B] =
      forEach_callback (forEach_callback (generateCode_head [A, B]) 0 A) 1 B"
    by simp
  also have "\<dots> = forEach_callback (generateCode_head [A, B]) 0 A @ forEach_callback [] 1 B"
    by (rule forEach_callback_append)
  also have "\<dots> = (generateCode_head [A, B] @ forEach_callback [] 0 A) @ forEach_callback [] 1 B"
    by (subst forEach_callback_append) (rule refl)
  finally show ?thesis
    by (simp only: generateCode_def Let_def append_assoc)
qed

lemma generateCode_head_pair: "generateCode_head [A, B] = generateCode_head [B, A]"
  by (simp only: generateCode_head_eq list.size)

text \<open>
  C1 (amended). The text of \<open>[A, B]\<close> differs from the text of \<open>[B, A]\<close> whenever
  the two steps differ in kind, or have the same kind and differ in something that
  \<open>generateCode\<close> prints for that kind: for IDLE the wait (the delay, and 10 for a
  delay of 0 or NaN); for READ and WRITE the \<open>addr\<close>, the \<open>data\<close> of a WRITE, or
  the wait line (the delay when it is positive). For two steps of the same kind READ or
  WRITE the \<open>addr\<close> texts, and for WRITE the \<open>data\<close> texts, are taken to hold no
  line break.
\<close>

theorem generateCode_order_sensitive:
  assumes addr_lines:
      "kind A = kind B \<and> kind A \<noteq> IDLE \<longrightarrow>
         CHR ''\<newline>'' \<notin> set (addr A) \<and> CHR ''\<newline>'' \<notin> set (addr B)"
    and data_lines:
      "kind A = kind B \<and> kind A = WRITE \<longrightarrow>
         CHR ''\<newline>'' \<notin> set (data A) \<and> CHR ''\<newline>'' \<notin> set (data B)"
    and differ:
      "kind A \<noteq> kind B \<or>
       (kind A = IDLE \<and> or_number (delay A) (Num 10) \<noteq> or_number (delay B) (Num 10)) \<or>
       (kind A \<noteq> IDLE \<and>
          (addr A \<noteq> addr B \<or> (kind A = WRITE \<and> data A \<noteq> data B) \<or>
           ((gt_zero (delay A) \<or> gt_zero (delay B)) \<and> delay A \<noteq> delay B)))"
  shows "generateCode [A, B] \<noteq> generateCode [B, A]"
proof
  assume "generateCode [A, B] = generateCode [B, A]"
  then have "forEach_callback [] 0 A @ forEach_callback [] 1 B @ ''  endtask\<newline>endclass'' =
      forEach_callback [] 0 B @ forEach_callback [] 1 A @ ''  endtask\<newline>endclass''"
    by (simp only: generateCode_pair generateCode_head_pair [of A B] same_append_eq)
  from callback_prefix_free [OF this] addr_lines data_lines differ
  show False by blast
qed

theorem generateCode_order_sensitive_witness:
  "generateCode
     [\<lparr> id' = ''1'', kind = WRITE, addr = ''0x1000'', data = ''0xFF'', delay = Num 0 \<rparr>,
      \<lparr> id' = ''2'', kind = WRITE, addr = ''0x2000'', data = ''0xFF'', delay = Num 0 \<rparr>] \<noteq>
   generateCode
     [\<lparr> id' = ''2'', kind = WRITE, addr = ''0x2000'', data = ''0xFF'', delay = Num 0 \<rparr>,
      \<lparr> id' = ''1'', kind = WRITE, addr = ''0x1000'', data = ''0xFF'', delay = Num 0 \<rparr>]"
  using generateCode_order_sensitive
    [of "\<lparr> id' = ''1'', kind = WRITE, addr = ''0x1000'', data = ''0xFF'', delay = Num 0 \<rparr>"
        "\<lparr> id' = ''2'', kind = WRITE, addr = ''0x2000'', data = ''0xFF'', delay = Num 0 \<rparr>"]
  by simp

text \<open>
  The claim as written asks for different texts whenever the steps differ in any field.
  Two IDLE steps with delays 0 and 10 (and different ids) both print \<open>#10;\<close>, so
  the two orders give the same text. The same holds for steps that differ only in their
  id, in the \<open>data\<close> of a READ, or in the \<open>addr\<close> and \<open>data\<close> of an IDLE step.
\<close>

theorem generateCode_order_counterexample:
  "\<lparr> id' = ''1'', kind = IDLE, addr = '''h1000'', data = '''hFF'', delay = Num 0 \<rparr> \<noteq>
   \<lparr> id' = ''2'', kind = IDLE, addr = '''h1000'', data = '''hFF'', delay = Num 10 \<rparr> \<and>
   delay \<lparr> id' = ''1'', kind = IDLE, addr = '''h1000'', data = '''hFF'', delay = Num 0 \<rparr> \<noteq>
   delay \<lparr> id' = ''2'', kind = IDLE, addr = '''h1000'', data = '''hFF'', delay = Num 10 \<rparr> \<and>
   generateCode
     [\<lparr> id' = ''1'', kind = IDLE, addr = '''h1000'', data = '''hFF'', delay = Num 0 \<rparr>,
      \<lparr> id' = ''2'', kind = IDLE, addr = '''h1000'', data = '''hFF'', delay = Num 10 \<rparr>] =
   generateCode
     [\<lparr> id' = ''2'', kind = IDLE, addr = '''h1000'', data = '''hFF'', delay = Num 10 \<rparr>,
      \<lparr> id' = ''1'', kind = IDLE, addr = '''h1000'', data = '''hFF'', delay = Num 0 \<rparr>]"
proof -
  let ?A = "\<lparr> id' = ''1'', kind = IDLE, addr = '''h1000'', data = '''hFF'', delay = Num 0 \<rparr>"
  let ?B = "\<lparr> id' = ''2'', kind = IDLE, addr = '''h1000'', data = '''hFF'', delay = Num 10 \<rparr>"
  have k: "kind ?A = IDLE" "kind ?B = IDLE" by simp_all
  have d: "or_number (delay ?A) (Num 10) = or_number (delay ?B) (Num 10)"
    by (simp add: or_number_def)
  have same: "forEach_callback [] i ?A = forEach_callback [] i ?B" for i
    by (simp only: forEach_callback_block k d simp_thms if_True)
  have "generateCode [?A, ?B] = generateCode [?B, ?A]"
    by (simp only: generateCode_pair generateCode_head_pair [of ?A ?B] same)
  then show ?thesis by simp
qed

text \<open>
  Why the texts are taken to hold no line break: \<open>addr\<close> is copied into the
  template as it is, and an \<open>addr\<close> that itself holds the lines between two
  \<open>addr\<close> positions makes both orders print the same text.
\<close>

lemma generateCode_order_line_break:
  fixes A B :: SequenceStep and M :: string
  defines "M \<equiv>
      '';\<newline>'' @ (''      kind == '' @ kind_text READ @ '';\<newline>'') @
      ''    }) `uvm_error(\"SEQ\", \"Randomization failed\")\<newline>'' @
      ''    finish_item(req);\<newline>'' @ ''\<newline>'' @
      (''    // Step '' @ show_nat (1 + 1) @ '': '' @ kind_text READ @ ''\<newline>'') @
      ''    req = my_transaction::type_id::create(\"req\");\<newline>'' @
      ''    start_item(req);\<newline>'' @
      ''    if (!req.randomize() with {\<newline>'' @
      ''      addr == ''"
  defines "A \<equiv> \<lparr> id' = ''1'', kind = READ, addr = ''0'', data = ''0'', delay = Num 0 \<rparr>"
    and "B \<equiv> \<lparr> id' = ''2'', kind = READ, addr = ''0'' @ M @ ''0'', data = ''0'', delay = Num 0 \<rparr>"
  shows "addr A \<noteq> addr B \<and> generateCode [A, B] = generateCode [B, A]"
proof -
  have f: "kind A = READ" "kind B = READ" "addr A = ''0''" "addr B = ''0'' @ M @ ''0''"
    "\<not> gt_zero (delay A)" "\<not> gt_zero (delay B)" "READ \<noteq> IDLE" "READ \<noteq> WRITE"
    by (simp_all add: A_def B_def)
  have "generateCode [A, B] = generateCode [B, A]"
    by (simp only: generateCode_pair generateCode_head_pair [of A B] forEach_callback_block f
        if_False M_def append_assoc append_Nil)
  moreover have "addr A \<noteq> addr B" unfolding f by simp
  ultimately show ?thesis by simp
qed

section \<open>The walkthrough\<close>

lemma length_WALKTHROUGH_STEPS: "length WALKTHROUGH_STEPS = 7"
  by (simp add: WALKTHROUGH_STEPS_def)

lemma array_get_in_range:
  "0 \<le> i \<Longrightarrow> i < int (length xs) \<Longrightarrow> array_get xs i = Some (xs ! nat i)"
  by (simp add: array_get_def)

lemma nextStep_in_range:
  assumes "- 1 \<le> simulationStepIndex s" and "simulationStepIndex s < 6"
  shows "nextStep s = Inr (s\<lparr>simulationStepIndex := simulationStepIndex s + 1,
            activeComponent := component (WALKTHROUGH_STEPS ! nat (simulationStepIndex s + 1))\<rparr>)"
  using assms by (simp add: nextStep_def length_WALKTHROUGH_STEPS array_get_in_range Let_def)

lemma nextStep_at_end: "6 \<le> simulationStepIndex s \<Longrightarrow> nextStep s = Inr s"
  by (simp add: nextStep_def length_WALKTHROUGH_STEPS)

lemma prevStep_in_range:
  assumes "0 < simulationStepIndex s" and "simulationStepIndex s \<le> 7"
  shows "prevStep s = Inr (s\<lparr>simulationStepIndex := simulationStepIndex s - 1,
            activeComponent := component (WALKTHROUGH_STEPS ! nat (simulationStepIndex s - 1))\<rparr>)"
  using assms by (simp add: prevStep_def length_WALKTHROUGH_STEPS array_get_in_range Let_def)

lemma prevStep_at_start: "simulationStepIndex s \<le> 0 \<Longrightarrow> prevStep s = Inr s"
  by (simp add: prevStep_def)

lemma next_prev_in_range:
  assumes "0 \<le> simulationStepIndex s" and "simulationStepIndex s \<le> 6"
    and "e = Next \<or> e = Prev"
  shows "\<exists>s'. appEvent e s = Inr s' \<and> 0 \<le> simulationStepIndex s' \<and> simulationStepIndex s' \<le> 6"
proof (cases "e = Next")
  case True
  show ?thesis
  proof (cases "simulationStepIndex s < 6")
    case True
    with assms \<open>e = Next\<close> show ?thesis by (simp add: nextStep_in_range)
  next
    case False
    with assms \<open>e = Next\<close> show ?thesis by (simp add: nextStep_at_end)
  qed
next
  case False
  with assms have e: "e = Prev" by simp
  show ?thesis
  proof (cases "0 < simulationStepIndex s")
    case True
    with assms e show ?thesis by (simp add: prevStep_in_range)
  next
    case False
    with assms e show ?thesis by (simp add: prevStep_at_start)
  qed
qed

lemma appEvents_next_prev:
  assumes "set es \<subseteq> {Next, Prev}"
    and "0 \<le> simulationStepIndex s" and "simulationStepIndex s \<le> 6"
  shows "\<exists>s'. appEvents es s = Inr s' \<and> 0 \<le> simulationStepIndex s' \<and> simulationStepIndex s' \<le> 6"
  using assms
proof (induction es arbitrary: s)
  case Nil
  then show ?case by simp
next
  case (Cons e es)
  from Cons.prems have "e = Next \<or> e = Prev" by simp
  with Cons.prems obtain s1 where s1: "appEvent e s = Inr s1"
    "0 \<le> simulationStepIndex s1" "simulationStepIndex s1 \<le> 6"
    using next_prev_in_range by blast
  from Cons.prems have "set es \<subseteq> {Next, Prev}" by simp
  from Cons.IH [OF this s1(2) s1(3)] s1(1) show ?case by simp
qed

text \<open>
  C5. From a state on step \<open>i\<close> with \<open>0 \<le> i \<le> 6\<close> (there are 7 walkthrough steps),
  every sequence of \<open>nextStep\<close> and \<open>prevStep\<close> calls runs without an error and
  ends with the cursor in \<open>[0, 6]\<close>; \<open>nextStep\<close> on step 6 and \<open>prevStep\<close> on
  step 0 return the state unchanged.
\<close>

theorem cursor_stays_in_range:
  assumes "0 \<le> simulationStepIndex s" and "simulationStepIndex s \<le> 6"
    and "set es \<subseteq> {Next, Prev}"
  shows "length WALKTHROUGH_STEPS = 7 \<and>
         (\<exists>s'. appEvents es s = Inr s' \<and>
               0 \<le> simulationStepIndex s' \<and> simulationStepIndex s' \<le> 6) \<and>
         (simulationStepIndex s = 6 \<longrightarrow> nextStep s = Inr s) \<and>
         (simulationStepIndex s = 0 \<longrightarrow> prevStep s = Inr s)"
  using assms appEvents_next_prev [OF assms(3) assms(1) assms(2)]
  by (simp add: length_WALKTHROUGH_STEPS nextStep_at_end prevStep_at_start)

theorem cursor_stays_in_range_witness:
  "appEvents [Next, Next, Prev, Prev] (initialApp\<lparr>simulationStepIndex := 6\<rparr>) =
     Inr (initialApp\<lparr>simulationStepIndex := 4, activeComponent := DUT\<rparr>) \<and>
   nextStep (initialApp\<lparr>simulationStepIndex := 6\<rparr>) = Inr (initialApp\<lparr>simulationStepIndex := 6\<rparr>)"
proof -
  have "nextStep (initialApp\<lparr>simulationStepIndex := 6\<rparr>) = Inr (initialApp\<lparr>simulationStepIndex := 6\<rparr>)"
    using cursor_stays_in_range [of "initialApp\<lparr>simulationStepIndex := 6\<rparr>" "[Next, Next, Prev, Prev]"]
    by simp
  moreover have "appEvents [Next, Next, Prev, Prev] (initialApp\<lparr>simulationStepIndex := 6\<rparr>) =
     Inr (initialApp\<lparr>simulationStepIndex := 4, activeComponent := DUT\<rparr>)"
    by (simp add: nextStep_def prevStep_def array_get_def WALKTHROUGH_STEPS_def initialApp_def)
  ultimately show ?thesis by simp
qed

lemma appReachable_appEvents:
  "appReachable s \<Longrightarrow> appEvents es s = Inr s' \<Longrightarrow> appReachable s'"
proof (induction es arbitrary: s)
  case Nil
  then show ?case by simp
next
  case (Cons e es)
  then show ?case by (auto split: sum.splits intro: app_event)
qed

lemma appReachable_invariant:
  assumes "appReachable s"
  shows "- 1 \<le> simulationStepIndex s \<and> simulationStepIndex s \<le> 6 \<and>
         (0 \<le> simulationStepIndex s \<longrightarrow>
            activeComponent s = component (WALKTHROUGH_STEPS ! nat (simulationStepIndex s)))"
  using assms
proof (induction rule: appReachable.induct)
  case app_init
  show ?case by (simp add: initialApp_def)
next
  case (app_event s e s')
  show ?case
  proof (cases e)
    case Start
    with app_event show ?thesis
      by (auto simp: startSimulation_def array_get_def length_WALKTHROUGH_STEPS)
  next
    case Next
    show ?thesis
    proof (cases "simulationStepIndex s < 6")
      case True
      with app_event Next show ?thesis by (auto simp: nextStep_in_range)
    next
      case False
      with app_event Next show ?thesis by (auto simp: nextStep_at_end)
    qed
  next
    case Prev
    show ?thesis
    proof (cases "0 < simulationStepIndex s")
      case True
      with app_event Prev show ?thesis by (auto simp: prevStep_in_range)
    next
      case False
      with app_event Prev show ?thesis by (auto simp: prevStep_at_start)
    qed
  next
    case Stop
    with app_event show ?thesis by (auto simp: stopSimulation_def)
  next
    case (Click c)
    with app_event show ?thesis by (auto simp: onClick_def onSelectComponent_def isSimulating_def)
  next
    case (ViewChange m)
    with app_event show ?thesis by (auto simp: handleViewChange_def Let_def)
  qed
qed

text \<open>
  C6. In every state the handlers can reach: while the walkthrough is on step \<open>i\<close>, a
  click on a block of the diagram changes nothing, and the active component is the
  component of step \<open>i\<close>; while the walkthrough is inactive, the click makes the
  clicked block the active component.
\<close>

theorem click_ignored_while_simulating:
  assumes "appReachable s"
  shows "(isSimulating s \<longrightarrow>
            onClick c s = s \<and>
            array_get WALKTHROUGH_STEPS (simulationStepIndex s) \<noteq> None \<and>
            (\<forall>st. array_get WALKTHROUGH_STEPS (simulationStepIndex s) = Some st \<longrightarrow>
                  activeComponent (onClick c s) = component st)) \<and>
         (\<not> isSimulating s \<longrightarrow> activeComponent (onClick c s) = c)"
  using appReachable_invariant [OF assms]
  by (auto simp: onClick_def isSimulating_def onSelectComponent_def array_get_def
      length_WALKTHROUGH_STEPS)

theorem click_ignored_while_simulating_witness:
  "appReachable \<lparr> activeComponent = DRIVER, viewMode = architecture, simulationStepIndex = 2 \<rparr> \<and>
   onClick TOP \<lparr> activeComponent = DRIVER, viewMode = architecture, simulationStepIndex = 2 \<rparr> =
     \<lparr> activeComponent = DRIVER, viewMode = architecture, simulationStepIndex = 2 \<rparr> \<and>
   activeComponent (onClick TOP initialApp) = TOP"
proof -
  let ?s = "\<lparr> activeComponent = DRIVER, viewMode = architecture, simulationStepIndex = 2 \<rparr>"
  have run: "appEvents [Start, Next, Next] initialApp = Inr ?s"
    by (simp add: startSimulation_def nextStep_def array_get_def WALKTHROUGH_STEPS_def
        initialApp_def)
  have r: "appReachable ?s"
    by (rule appReachable_appEvents [OF app_init run])
  have "isSimulating ?s" and "\<not> isSimulating initialApp"
    by (simp_all add: isSimulating_def initialApp_def)
  with r click_ignored_while_simulating [OF r, of TOP]
    click_ignored_while_simulating [OF app_init, of TOP]
  show ?thesis by simp
qed

text \<open>
  C7. \<open>stopSimulation\<close> sets the cursor to \<open>-1\<close> in every state, and
  \<open>startSimulation\<close> after it sets the cursor to 0 and the active component to the
  component of step 0, which is the sequence, whatever the cursor was.
\<close>

theorem stop_then_start:
  "simulationStepIndex (stopSimulation s) = - 1 \<and>
   startSimulation (stopSimulation s) =
     Inr (s\<lparr>simulationStepIndex := 0, activeComponent := component (WALKTHROUGH_STEPS ! 0)\<rparr>) \<and>
   component (WALKTHROUGH_STEPS ! 0) = SEQUENCE"
  by (simp add: stopSimulation_def startSimulation_def array_get_def WALKTHROUGH_STEPS_def)

end
